theory Spec2Isabelle
  imports Main "HOL-Library.Sublist" "HOL-Library.Word"
begin

section \<open>The environment of \<^verbatim>\<open>s3_download.py\<close>\<close>

text \<open>
  The script talks to two things outside itself: the local filesystem (through
  \<^verbatim>\<open>os\<close> and \<^verbatim>\<open>open\<close>) and the object store (through a boto3 client).
  Both are part of an explicit \<open>world\<close> that every function takes and returns.

  \<^item> The filesystem is a map from path strings to nodes. Paths are names: the model
    does not resolve \<^verbatim>\<open>.\<close>, \<^verbatim>\<open>..\<close> or repeated separators, and creating a
    directory does not look at its ancestors. Apart from the refusals the node kinds
    force (a file cannot be renamed onto a directory, a directory cannot be opened for
    writing), the operating system may refuse to create or modify a path: the predicate
    \<open>readonly\<close> of the world says where.
  \<^item> The object store is an oracle: the answer of the client to a call is a function of
    the calls made before it and of the call's arguments. A failed call is the client
    raising \<^verbatim>\<open>ClientError\<close>, the one exception class the script imports from
    botocore and handles. Every call the script makes is appended to \<open>calls\<close>.
  \<^item> Log lines are not part of the world, except that \<open>should_ignore_bucket\<close> keeps
    the decision it logs. The arguments of \<open>download_file_resumable\<close> that only feed
    log lines (file number, file count, byte totals) are left out.
\<close>

type_synonym path = string
type_synonym bytes = "8 word list"

datatype node = File bytes | Dir

datatype os_error = FileNotFoundError | FileExistsError | IsADirectoryError
  | NotADirectoryError | PermissionError

datatype client_error = ClientError

datatype call = ListBuckets
  | ListObjectsV2 string
  | GetObject string string nat nat
  | DeleteObject string string

text \<open>An entry of a listing page: \<^verbatim>\<open>obj['Key']\<close> and the optional \<^verbatim>\<open>obj.get('Size', 0)\<close>.\<close>

record s3obj =
  Key :: string
  Size :: "nat option"

text \<open>
  One page of the paginator: the page cannot be fetched (\<^verbatim>\<open>ClientError\<close>), or it
  arrives, with or without a \<^verbatim>\<open>Contents\<close> entry.
\<close>

datatype page = PageError | Page "s3obj list option"

record s3_client =
  list_buckets :: "call list \<Rightarrow> client_error + string list"
  paginate :: "call list \<Rightarrow> string \<Rightarrow> page list"
  get_object :: "call list \<Rightarrow> string \<Rightarrow> string \<Rightarrow> nat \<Rightarrow> nat \<Rightarrow> client_error + bytes"

record world =
  files :: "path \<rightharpoonup> node"
  readonly :: "path \<Rightarrow> bool"
  dir_size :: nat
  calls :: "call list"

subsection \<open>\<^verbatim>\<open>os.path\<close> and \<^verbatim>\<open>os\<close>\<close>

definition sep :: char where
  "sep = CHR ''/''"

definition endswith_sep :: "string \<Rightarrow> bool" where
  "endswith_sep s = suffix [sep] s"

text \<open>\<^verbatim>\<open>posixpath.join\<close>: an absolute component discards what came before it.\<close>

definition join2 :: "path \<Rightarrow> string \<Rightarrow> path" where
  "join2 p b =
     (if prefix [sep] b then b
      else if p = [] \<or> endswith_sep p then p @ b
      else p @ [sep] @ b)"

definition os_path_join :: "path \<Rightarrow> string list \<Rightarrow> path" where
  "os_path_join a ps = foldl join2 a ps"

text \<open>
  \<^verbatim>\<open>posixpath.dirname\<close>: everything up to the last separator, with trailing
  separators stripped unless the head consists of separators only.
\<close>

definition rstrip_sep :: "string \<Rightarrow> string" where
  "rstrip_sep s = rev (dropWhile (\<lambda>c. c = sep) (rev s))"

definition os_path_dirname :: "path \<Rightarrow> path" where
  "os_path_dirname p =
     (let head = rev (dropWhile (\<lambda>c. c \<noteq> sep) (rev p))
      in if head \<noteq> [] \<and> head \<noteq> replicate (length head) sep then rstrip_sep head
         else head)"

definition os_path_exists :: "world \<Rightarrow> path \<Rightarrow> bool" where
  "os_path_exists w p = (files w p \<noteq> None)"

definition os_path_isdir :: "world \<Rightarrow> path \<Rightarrow> bool" where
  "os_path_isdir w p = (files w p = Some Dir)"

text \<open>
  \<^verbatim>\<open>os.path.getsize\<close> raises on a missing path; on a directory it returns the size
  the operating system reports for the directory entry.
\<close>

definition os_path_getsize :: "world \<Rightarrow> path \<Rightarrow> os_error + nat" where
  "os_path_getsize w p =
     (case files w p of
        None \<Rightarrow> Inl FileNotFoundError
      | Some (File content) \<Rightarrow> Inr (length content)
      | Some Dir \<Rightarrow> Inr (dir_size w))"

text \<open>\<^verbatim>\<open>os.rename\<close> (POSIX): an existing plain file at the destination is replaced.\<close>

definition os_rename :: "world \<Rightarrow> path \<Rightarrow> path \<Rightarrow> os_error + world" where
  "os_rename w src dst =
     (case files w src of
        None \<Rightarrow> Inl FileNotFoundError
      | Some n \<Rightarrow>
          if readonly w src \<or> readonly w dst then Inl PermissionError
          else if n \<noteq> Dir \<and> files w dst = Some Dir then Inl IsADirectoryError
          else if n = Dir \<and> files w dst \<noteq> None \<and> files w dst \<noteq> Some Dir
            then Inl NotADirectoryError
          else Inr (w\<lparr>files := ((files w)(src := None))(dst \<mapsto> n)\<rparr>))"

text \<open>\<^verbatim>\<open>os.makedirs(path, exist_ok=True)\<close>.\<close>

definition os_makedirs :: "world \<Rightarrow> path \<Rightarrow> os_error + world" where
  "os_makedirs w p =
     (case files w p of
        Some Dir \<Rightarrow> Inr w
      | Some (File content) \<Rightarrow> Inl FileExistsError
      | None \<Rightarrow>
          if readonly w p then Inl PermissionError
          else Inr (w\<lparr>files := (files w)(p \<mapsto> Dir)\<rparr>))"

text \<open>What a plain file holds; empty where there is no plain file.\<close>

definition file_bytes :: "world \<Rightarrow> path \<Rightarrow> bytes" where
  "file_bytes w p = (case files w p of Some (File old) \<Rightarrow> old | _ \<Rightarrow> [])"

text \<open>
  \<^verbatim>\<open>with open(path, "ab") as f: f.write(data)\<close>: the file is created when it is
  missing, and the data goes after what the file already holds. A path that ends in a
  separator can only name a directory.
\<close>

definition open_append :: "world \<Rightarrow> path \<Rightarrow> bytes \<Rightarrow> os_error + world" where
  "open_append w p data =
     (if p = [] then Inl FileNotFoundError
      else if endswith_sep p \<or> files w p = Some Dir then Inl IsADirectoryError
      else if readonly w p then Inl PermissionError
      else Inr (w\<lparr>files := (files w)(p \<mapsto> File (file_bytes w p @ data))\<rparr>))"

text \<open>
  The invariant behind the last remark: no plain file sits at a path that ends in a
  separator.
\<close>

definition no_file_at_dir_path :: "world \<Rightarrow> bool" where
  "no_file_at_dir_path w = (\<forall>p content. files w p = Some (File content) \<longrightarrow> \<not> endswith_sep p)"

text \<open>
  The bytes of an object at the positions \<open>a\<close> to \<open>e\<close> inclusive: what a store that
  honours \<^verbatim>\<open>Range: bytes=a-e\<close> sends back.
\<close>

definition range_bytes :: "bytes \<Rightarrow> nat \<Rightarrow> nat \<Rightarrow> bytes" where
  "range_bytes content a e = take (Suc e - a) (drop a content)"

definition record_call :: "world \<Rightarrow> call \<Rightarrow> world" where
  "record_call w c = w\<lparr>calls := calls w @ [c]\<rparr>"

section \<open>The script\<close>

subsection \<open>\<^verbatim>\<open>should_ignore_bucket\<close>\<close>

text \<open>
  \<open>ignore_patterns\<close> is a dictionary; a missing key reads as the empty list. The
  function logs which pattern decided; the model returns that decision, and
  \<open>should_ignore_bucket\<close> is the boolean the script returns.
\<close>

type_synonym ignore_patterns = "string \<rightharpoonup> string list"

datatype decision = StartsWith string | EndsWith string | Contains string | Processed

definition get_patterns :: "ignore_patterns \<Rightarrow> string \<Rightarrow> string list" where
  "get_patterns pats k = (case pats k of None \<Rightarrow> [] | Some ps \<Rightarrow> ps)"

fun first_match :: "(string \<Rightarrow> bool) \<Rightarrow> string list \<Rightarrow> string option" where
  "first_match matches [] = None"
| "first_match matches (p # ps) = (if matches p then Some p else first_match matches ps)"

definition ignore_decision :: "string \<Rightarrow> ignore_patterns \<Rightarrow> decision" where
  "ignore_decision bucket_name pats =
     (case first_match (\<lambda>p. prefix p bucket_name) (get_patterns pats ''starts_with'') of
        Some p \<Rightarrow> StartsWith p
      | None \<Rightarrow>
     (case first_match (\<lambda>s. suffix s bucket_name) (get_patterns pats ''ends_with'') of
        Some s \<Rightarrow> EndsWith s
      | None \<Rightarrow>
     (case first_match (\<lambda>s. sublist s bucket_name) (get_patterns pats ''contains'') of
        Some s \<Rightarrow> Contains s
      | None \<Rightarrow> Processed)))"

definition should_ignore_bucket :: "string \<Rightarrow> ignore_patterns \<Rightarrow> bool" where
  "should_ignore_bucket bucket_name pats = (ignore_decision bucket_name pats \<noteq> Processed)"

subsection \<open>\<^verbatim>\<open>ensure_directory\<close>\<close>

definition conflict_suffix :: string where
  "conflict_suffix = ''_file_conflict''"

definition makedirs_logged :: "world \<Rightarrow> path \<Rightarrow> (os_error + unit) \<times> world" where
  "makedirs_logged w p =
     (case os_makedirs w p of Inl e \<Rightarrow> (Inl e, w) | Inr w' \<Rightarrow> (Inr (), w'))"

definition ensure_directory :: "world \<Rightarrow> path \<Rightarrow> (os_error + unit) \<times> world" where
  "ensure_directory w p =
     (if os_path_exists w p then
        if os_path_isdir w p then (Inr (), w)
        else (case os_rename w p (p @ conflict_suffix) of
                Inl e \<Rightarrow> (Inl e, w)
              | Inr w' \<Rightarrow> makedirs_logged w' p)
      else makedirs_logged w p)"

subsection \<open>\<^verbatim>\<open>delete_s3_object\<close>\<close>

text \<open>
  The call is made only under the flag. Whether it succeeds or raises \<^verbatim>\<open>ClientError\<close>
  selects the log line and nothing else, so the client's answer is not consulted.
\<close>

definition delete_s3_object :: "world \<Rightarrow> string \<Rightarrow> string \<Rightarrow> bool \<Rightarrow> world" where
  "delete_s3_object w bucket_name key delete_file =
     (if delete_file then record_call w (DeleteObject bucket_name key) else w)"

subsection \<open>\<^verbatim>\<open>list_bucket_objects\<close>\<close>

fun split_contents :: "s3obj list \<Rightarrow> s3obj list \<times> s3obj list \<Rightarrow> s3obj list \<times> s3obj list" where
  "split_contents [] acc = acc"
| "split_contents (obj # objs) (file_objects, dir_objects) =
     (if endswith_sep (Key obj) then split_contents objs (file_objects, dir_objects @ [obj])
      else split_contents objs (file_objects @ [obj], dir_objects))"

text \<open>
  The loop over the pages. A page that cannot be fetched ends the loop, and what was
  collected so far is what the function returns. The second component counts the page
  requests made.
\<close>

fun read_pages :: "page list \<Rightarrow> s3obj list \<times> s3obj list \<Rightarrow> (s3obj list \<times> s3obj list) \<times> nat" where
  "read_pages [] acc = (acc, 0)"
| "read_pages (PageError # ps) acc = (acc, 1)"
| "read_pages (Page None # ps) acc = (case read_pages ps acc of (r, n) \<Rightarrow> (r, Suc n))"
| "read_pages (Page (Some objs) # ps) acc =
     (case read_pages ps (split_contents objs acc) of (r, n) \<Rightarrow> (r, Suc n))"

definition list_bucket_objects ::
  "s3_client \<Rightarrow> world \<Rightarrow> string \<Rightarrow> (s3obj list \<times> s3obj list) \<times> world" where
  "list_bucket_objects c w bucket_name =
     (case read_pages (paginate c (calls w) bucket_name) ([], []) of
        (r, n) \<Rightarrow> (r, w\<lparr>calls := calls w @ replicate n (ListObjectsV2 bucket_name)\<rparr>))"

subsection \<open>\<^verbatim>\<open>download_file_resumable\<close>\<close>

definition chunk_size :: nat where
  "chunk_size = 8 * 1024 * 1024"

text \<open>
  \<^verbatim>\<open>end_byte = min(downloaded + chunk_size - 1, expected_size - 1)\<close>. It is only
  computed under \<open>downloaded < expected_size\<close>, where neither subtraction truncates.
\<close>

definition end_byte :: "nat \<Rightarrow> nat \<Rightarrow> nat" where
  "end_byte downloaded expected_size = min (downloaded + chunk_size - 1) (expected_size - 1)"

text \<open>
  The \<^verbatim>\<open>while\<close> loop with the return that follows it. \<open>downloaded\<close> and
  \<open>new_bytes_downloaded\<close> are the loop's two counters. An empty body leaves the loop
  with \<open>downloaded < expected_size\<close>, so the function returns \<open>False\<close>. An exception of
  \<^verbatim>\<open>open\<close> is not caught in the script and leaves the function.
\<close>

function download_loop ::
  "s3_client \<Rightarrow> string \<Rightarrow> string \<Rightarrow> path \<Rightarrow> nat \<Rightarrow> nat \<Rightarrow> nat \<Rightarrow> world
     \<Rightarrow> (os_error + bool \<times> nat) \<times> world" where
  "download_loop c bucket_name key local_path expected_size downloaded new_bytes_downloaded w =
     (if downloaded < expected_size then
        (case get_object c (calls w) bucket_name key downloaded (end_byte downloaded expected_size) of
           Inl ClientError \<Rightarrow>
             (Inr (False, new_bytes_downloaded),
              record_call w (GetObject bucket_name key downloaded (end_byte downloaded expected_size)))
         | Inr data \<Rightarrow>
             if data = [] then
               (Inr (False, new_bytes_downloaded),
                record_call w (GetObject bucket_name key downloaded (end_byte downloaded expected_size)))
             else
               (case open_append
                       (record_call w
                          (GetObject bucket_name key downloaded (end_byte downloaded expected_size)))
                       local_path data of
                  Inl e \<Rightarrow>
                    (Inl e,
                     record_call w
                       (GetObject bucket_name key downloaded (end_byte downloaded expected_size)))
                | Inr w2 \<Rightarrow>
                    download_loop c bucket_name key local_path expected_size
                      (downloaded + length data) (new_bytes_downloaded + length data) w2))
      else (Inr (True, new_bytes_downloaded), w))"
  by pat_completeness auto
termination
  by (relation "measure (\<lambda>(c, b, k, p, expected_size, downloaded, n, w). expected_size - downloaded)")
     (auto simp: neq_Nil_conv)

declare download_loop.simps [simp del]

definition current_local_size :: "world \<Rightarrow> path \<Rightarrow> os_error + nat" where
  "current_local_size w local_path =
     (if os_path_exists w local_path then os_path_getsize w local_path else Inr 0)"

definition download_file_resumable ::
  "s3_client \<Rightarrow> world \<Rightarrow> string \<Rightarrow> string \<Rightarrow> path \<Rightarrow> nat \<Rightarrow> (os_error + bool \<times> nat) \<times> world" where
  "download_file_resumable c w bucket_name key local_path expected_size =
     (case current_local_size w local_path of
        Inl e \<Rightarrow> (Inl e, w)
      | Inr size0 \<Rightarrow>
          if size0 \<ge> expected_size then (Inr (True, 0), w)
          else download_loop c bucket_name key local_path expected_size size0 0 w)"

subsection \<open>\<^verbatim>\<open>download_bucket_objects\<close>\<close>

record config =
  delete_after_download :: "bool option"

definition get_delete_after_download :: "config \<Rightarrow> bool" where
  "get_delete_after_download cfg =
     (case delete_after_download cfg of None \<Rightarrow> False | Some flag \<Rightarrow> flag)"

definition obj_size :: "s3obj \<Rightarrow> nat" where
  "obj_size obj = (case Size obj of None \<Rightarrow> 0 | Some n \<Rightarrow> n)"

definition local_path_of :: "path \<Rightarrow> string \<Rightarrow> s3obj \<Rightarrow> path" where
  "local_path_of download_dir bucket_name obj = os_path_join download_dir [bucket_name, Key obj]"

text \<open>
  The body of the loop over \<open>file_objects\<close>, from the running byte counter and the
  world to the new counter and world. \<^verbatim>\<open>continue\<close> after a failed
  \<open>ensure_directory\<close> is the first branch; an exception that the body does not catch
  is \<open>Inl\<close>.
\<close>

definition download_one ::
  "s3_client \<Rightarrow> string \<Rightarrow> path \<Rightarrow> bool \<Rightarrow> s3obj \<Rightarrow> nat \<Rightarrow> world \<Rightarrow> (os_error + nat) \<times> world" where
  "download_one c bucket_name download_dir delete_file obj downloaded_bytes w =
     (let key = Key obj;
          file_size = obj_size obj;
          local_path = local_path_of download_dir bucket_name obj;
          local_dir = os_path_dirname local_path
      in case ensure_directory w local_dir of
           (Inl e, w1) \<Rightarrow> (Inr downloaded_bytes, w1)
         | (Inr u, w1) \<Rightarrow>
             (case download_file_resumable c w1 bucket_name key local_path file_size of
                (Inl e, w2) \<Rightarrow> (Inl e, w2)
              | (Inr (success, new_bytes), w2) \<Rightarrow>
                  if success \<and> os_path_exists w2 local_path then
                    (case os_path_getsize w2 local_path of
                       Inl e \<Rightarrow> (Inl e, w2)
                     | Inr n \<Rightarrow>
                         if n \<ge> file_size
                         then (Inr (downloaded_bytes + file_size),
                               delete_s3_object w2 bucket_name key delete_file)
                         else (Inr downloaded_bytes, w2))
                  else (Inr downloaded_bytes, w2)))"

text \<open>
  The test the loop makes after the transfer, as a predicate:
  \<^verbatim>\<open>success and os.path.exists(local_path) and os.path.getsize(local_path) >= file_size\<close>.
\<close>

definition fully_downloaded :: "bool \<Rightarrow> world \<Rightarrow> path \<Rightarrow> nat \<Rightarrow> bool" where
  "fully_downloaded success w local_path file_size =
     (success \<and> os_path_exists w local_path \<and>
      (case os_path_getsize w local_path of Inl e \<Rightarrow> False | Inr n \<Rightarrow> file_size \<le> n))"

fun download_files ::
  "s3_client \<Rightarrow> string \<Rightarrow> path \<Rightarrow> bool \<Rightarrow> s3obj list \<Rightarrow> nat \<Rightarrow> world \<Rightarrow> (os_error + nat) \<times> world" where
  "download_files c bucket_name download_dir delete_file [] downloaded_bytes w =
     (Inr downloaded_bytes, w)"
| "download_files c bucket_name download_dir delete_file (obj # objs) downloaded_bytes w =
     (case download_one c bucket_name download_dir delete_file obj downloaded_bytes w of
        (Inl e, w') \<Rightarrow> (Inl e, w')
      | (Inr downloaded_bytes', w') \<Rightarrow>
          download_files c bucket_name download_dir delete_file objs downloaded_bytes' w')"

text \<open>The body of the loop over \<open>dir_objects\<close>.\<close>

definition make_marker_dir :: "string \<Rightarrow> path \<Rightarrow> bool \<Rightarrow> s3obj \<Rightarrow> world \<Rightarrow> world" where
  "make_marker_dir bucket_name download_dir delete_file obj w =
     (let key = Key obj;
          local_path = local_path_of download_dir bucket_name obj
      in if \<not> os_path_exists w local_path then
           (case os_makedirs w local_path of
              Inl e \<Rightarrow> w
            | Inr w1 \<Rightarrow> delete_s3_object w1 bucket_name key delete_file)
         else delete_s3_object w bucket_name key delete_file)"

fun make_marker_dirs :: "string \<Rightarrow> path \<Rightarrow> bool \<Rightarrow> s3obj list \<Rightarrow> world \<Rightarrow> world" where
  "make_marker_dirs bucket_name download_dir delete_file [] w = w"
| "make_marker_dirs bucket_name download_dir delete_file (obj # objs) w =
     make_marker_dirs bucket_name download_dir delete_file objs
       (make_marker_dir bucket_name download_dir delete_file obj w)"

definition download_bucket_objects ::
  "s3_client \<Rightarrow> world \<Rightarrow> string \<Rightarrow> path \<Rightarrow> config \<Rightarrow> (os_error + unit) \<times> world" where
  "download_bucket_objects c w bucket_name download_dir cfg =
     (case list_bucket_objects c w bucket_name of
        ((file_objects, dir_objects), w0) \<Rightarrow>
          (let delete_file = get_delete_after_download cfg
           in case download_files c bucket_name download_dir delete_file file_objects 0 w0 of
                (Inl e, w1) \<Rightarrow> (Inl e, w1)
              | (Inr downloaded_bytes, w1) \<Rightarrow>
                  (Inr (), make_marker_dirs bucket_name download_dir delete_file dir_objects w1)))"

subsection \<open>\<^verbatim>\<open>list_and_download_all_buckets\<close>\<close>

fun process_buckets ::
  "s3_client \<Rightarrow> path \<Rightarrow> ignore_patterns \<Rightarrow> config \<Rightarrow> string list \<Rightarrow> world \<Rightarrow> (os_error + unit) \<times> world" where
  "process_buckets c download_dir pats cfg [] w = (Inr (), w)"
| "process_buckets c download_dir pats cfg (bucket_name # buckets) w =
     (if should_ignore_bucket bucket_name pats then process_buckets c download_dir pats cfg buckets w
      else (case download_bucket_objects c w bucket_name download_dir cfg of
              (Inl e, w') \<Rightarrow> (Inl e, w')
            | (Inr u, w') \<Rightarrow> process_buckets c download_dir pats cfg buckets w'))"

definition list_and_download_all_buckets ::
  "s3_client \<Rightarrow> world \<Rightarrow> path \<Rightarrow> ignore_patterns \<Rightarrow> config \<Rightarrow> (os_error + unit) \<times> world" where
  "list_and_download_all_buckets c w download_dir pats cfg =
     (case list_buckets c (calls w) of
        Inl ClientError \<Rightarrow> (Inr (), record_call w ListBuckets)
      | Inr buckets \<Rightarrow>
          if buckets = [] then (Inr (), record_call w ListBuckets)
          else process_buckets c download_dir pats cfg buckets (record_call w ListBuckets))"

section \<open>Example worlds\<close>

text \<open>Concrete inputs on which the theorems below are instantiated.\<close>

definition demo_patterns :: ignore_patterns where
  "demo_patterns = [''starts_with'' \<mapsto> [''tmp-''], ''ends_with'' \<mapsto> [''-old''],
                    ''contains'' \<mapsto> [''zz'', ''test'', ''est'']]"

definition demo_client :: s3_client where
  "demo_client =
     \<lparr>list_buckets = (\<lambda>h. Inr [''b1'']),
      paginate = (\<lambda>h b. [Page (Some [\<lparr>Key = ''a.bin'', Size = Some 3\<rparr>])]),
      get_object = (\<lambda>h b k a e. Inr (take (Suc e - a) (drop a [1, 2, 3])))\<rparr>"

definition demo_world :: world where
  "demo_world =
     \<lparr>files = [''root/b1'' \<mapsto> Dir, ''root/b1/a.bin'' \<mapsto> File [1, 2, 3]],
      readonly = (\<lambda>p. False), dir_size = 4096, calls = []\<rparr>"





definition five_bytes :: bytes where
  "five_bytes = [1, 2, 3, 4, 5]"

definition honest_client :: s3_client where
  "honest_client =
     \<lparr>list_buckets = (\<lambda>h. Inr [''b1'']),
      paginate = (\<lambda>h b. [Page (Some [\<lparr>Key = ''a.bin'', Size = Some 5\<rparr>])]),
      get_object = (\<lambda>h b k a e. Inr (range_bytes five_bytes a e))\<rparr>"

definition partial_world :: world where
  "partial_world =
     \<lparr>files = [''root/b1'' \<mapsto> Dir, ''root/b1/a.bin'' \<mapsto> File [1, 2]],
      readonly = (\<lambda>p. False), dir_size = 4096, calls = []\<rparr>"




definition bucket_world :: world where
  "bucket_world =
     \<lparr>files = [''root/b1'' \<mapsto> Dir], readonly = (\<lambda>p. False), dir_size = 4096, calls = []\<rparr>"





definition empty_obj :: s3obj where
  "empty_obj = \<lparr>Key = ''empty.dat'', Size = Some 0\<rparr>"




section \<open>The ignore rules\<close>

lemma first_match_Some_iff:
  "first_match P xs = Some x \<longleftrightarrow>
     (\<exists>pre post. xs = pre @ x # post \<and> P x \<and> (\<forall>y\<in>set pre. \<not> P y))"
proof (induction xs)
  case Nil
  then show ?case by simp
next
  case (Cons a xs)
  show ?case
  proof (cases "P a")
    case True
    then show ?thesis
      by (auto simp: Cons_eq_append_conv)
  next
    case False
    have "(\<exists>pre post. a # xs = pre @ x # post \<and> P x \<and> (\<forall>y\<in>set pre. \<not> P y)) \<longleftrightarrow>
          (\<exists>pre post. xs = pre @ x # post \<and> P x \<and> (\<forall>y\<in>set pre. \<not> P y))"
    proof
      assume "\<exists>pre post. a # xs = pre @ x # post \<and> P x \<and> (\<forall>y\<in>set pre. \<not> P y)"
      then obtain pre post where h: "a # xs = pre @ x # post" "P x" "\<forall>y\<in>set pre. \<not> P y"
        by blast
      from h False obtain pre' where "pre = a # pre'"
        by (cases pre) auto
      with h show "\<exists>pre post. xs = pre @ x # post \<and> P x \<and> (\<forall>y\<in>set pre. \<not> P y)"
        by auto
    next
      assume "\<exists>pre post. xs = pre @ x # post \<and> P x \<and> (\<forall>y\<in>set pre. \<not> P y)"
      then obtain pre post where h: "xs = pre @ x # post" "P x" "\<forall>y\<in>set pre. \<not> P y"
        by blast
      with False have "a # xs = (a # pre) @ x # post \<and> P x \<and> (\<forall>y\<in>set (a # pre). \<not> P y)"
        by simp
      then show "\<exists>pre post. a # xs = pre @ x # post \<and> P x \<and> (\<forall>y\<in>set pre. \<not> P y)"
        by blast
    qed
    with False Cons.IH show ?thesis by simp
  qed
qed

lemma first_match_None_iff: "first_match P xs = None \<longleftrightarrow> (\<forall>y\<in>set xs. \<not> P y)"
  by (induction xs) auto

lemma first_match_not_None_iff: "first_match P xs \<noteq> None \<longleftrightarrow> (\<exists>y\<in>set xs. P y)"
  by (simp add: first_match_None_iff)

text \<open>
  C6. \<open>should_ignore_bucket\<close> answers true exactly when the name starts with a
  \<^verbatim>\<open>starts_with\<close> rule, ends with an \<^verbatim>\<open>ends_with\<close> rule or contains a
  \<^verbatim>\<open>contains\<close> rule. The rule that decides (the one the function logs) is the first
  matching rule of the first category that has a match, in the order prefix, suffix,
  substring: a suffix rule decides only when no prefix rule matches, a substring rule
  only when no prefix and no suffix rule matches, and no rule after the deciding one
  (\<open>post\<close>, and the later categories) has any influence.
\<close>

theorem should_ignore_bucket_order:
  "(should_ignore_bucket name pats \<longleftrightarrow>
      (\<exists>p\<in>set (get_patterns pats ''starts_with''). prefix p name)
      \<or> (\<exists>s\<in>set (get_patterns pats ''ends_with''). suffix s name)
      \<or> (\<exists>s\<in>set (get_patterns pats ''contains''). sublist s name)) \<and>
   (ignore_decision name pats = StartsWith r \<longleftrightarrow>
      (\<exists>pre post. get_patterns pats ''starts_with'' = pre @ r # post \<and> prefix r name
         \<and> (\<forall>q\<in>set pre. \<not> prefix q name))) \<and>
   (ignore_decision name pats = EndsWith r \<longleftrightarrow>
      (\<forall>q\<in>set (get_patterns pats ''starts_with''). \<not> prefix q name) \<and>
      (\<exists>pre post. get_patterns pats ''ends_with'' = pre @ r # post \<and> suffix r name
         \<and> (\<forall>q\<in>set pre. \<not> suffix q name))) \<and>
   (ignore_decision name pats = Contains r \<longleftrightarrow>
      (\<forall>q\<in>set (get_patterns pats ''starts_with''). \<not> prefix q name) \<and>
      (\<forall>q\<in>set (get_patterns pats ''ends_with''). \<not> suffix q name) \<and>
      (\<exists>pre post. get_patterns pats ''contains'' = pre @ r # post \<and> sublist r name
         \<and> (\<forall>q\<in>set pre. \<not> sublist q name)))"
proof -
  let ?a = "first_match (\<lambda>p. prefix p name) (get_patterns pats ''starts_with'')"
  let ?b = "first_match (\<lambda>s. suffix s name) (get_patterns pats ''ends_with'')"
  let ?c = "first_match (\<lambda>s. sublist s name) (get_patterns pats ''contains'')"
  have dec: "ignore_decision name pats =
      (case ?a of Some p \<Rightarrow> StartsWith p | None \<Rightarrow>
        (case ?b of Some s \<Rightarrow> EndsWith s | None \<Rightarrow>
          (case ?c of Some s \<Rightarrow> Contains s | None \<Rightarrow> Processed)))"
    by (simp add: ignore_decision_def)
  have 1: "should_ignore_bucket name pats \<longleftrightarrow> ?a \<noteq> None \<or> ?b \<noteq> None \<or> ?c \<noteq> None"
    unfolding should_ignore_bucket_def dec by (simp split: option.splits)
  have 2: "ignore_decision name pats = StartsWith r \<longleftrightarrow> ?a = Some r"
    unfolding dec by (simp split: option.splits)
  have 3: "ignore_decision name pats = EndsWith r \<longleftrightarrow> ?a = None \<and> ?b = Some r"
    unfolding dec by (simp split: option.splits)
  have 4: "ignore_decision name pats = Contains r \<longleftrightarrow> ?a = None \<and> ?b = None \<and> ?c = Some r"
    unfolding dec by (simp split: option.splits)
  show ?thesis
    unfolding 1 2 3 4 first_match_not_None_iff first_match_Some_iff first_match_None_iff
    by simp
qed

theorem should_ignore_bucket_order_witness:
  "should_ignore_bucket ''my-test-data'' demo_patterns \<and>
   ignore_decision ''my-test-data'' demo_patterns = Contains ''test''"
proof -
  have pats: "get_patterns demo_patterns ''starts_with'' = [''tmp-'']"
    "get_patterns demo_patterns ''ends_with'' = [''-old'']"
    "get_patterns demo_patterns ''contains'' = [''zz'', ''test'', ''est'']"
    by (simp_all add: get_patterns_def demo_patterns_def)
  have sub: "sublist ''test'' ''my-test-data''" "\<not> sublist ''zz'' ''my-test-data''"
    by code_simp+
  have no: "\<not> prefix ''tmp-'' ''my-test-data''" "\<not> suffix ''-old'' ''my-test-data''"
    by code_simp+
  have ex: "\<exists>pre post. [''zz'', ''test'', ''est''] = pre @ ''test'' # post \<and>
      sublist ''test'' ''my-test-data'' \<and> (\<forall>q\<in>set pre. \<not> sublist q ''my-test-data'')"
    using sub by (intro exI [of _ "[''zz'']"] exI [of _ "[''est'']"]) simp
  note inst = should_ignore_bucket_order [of "''my-test-data''" demo_patterns "''test''", unfolded pats]
  have a: "should_ignore_bucket ''my-test-data'' demo_patterns"
    using inst sub by simp
  have b: "ignore_decision ''my-test-data'' demo_patterns = Contains ''test''"
    using inst ex no by simp
  show ?thesis using a b by simp
qed

section \<open>Calls and files: basic facts\<close>

lemma calls_record_call: "calls (record_call w x) = calls w @ [x]"
  and files_record_call: "files (record_call w x) = files w"
  and readonly_record_call: "readonly (record_call w x) = readonly w"
  and dir_size_record_call: "dir_size (record_call w x) = dir_size w"
  by (simp_all add: record_call_def)

lemma file_bytes_record_call: "file_bytes (record_call w x) p = file_bytes w p"
  by (simp add: file_bytes_def files_record_call)

lemma open_append_Inr:
  assumes "open_append w p data = Inr w2"
  shows "files w2 = (files w)(p \<mapsto> File (file_bytes w p @ data))"
    and "calls w2 = calls w" and "readonly w2 = readonly w" and "dir_size w2 = dir_size w"
    and "p \<noteq> []" and "\<not> endswith_sep p" and "\<not> readonly w p" and "files w p \<noteq> Some Dir"
  using assms by (auto simp: open_append_def split: if_splits)

lemma open_append_file_bytes:
  "open_append w p data = Inr w2 \<Longrightarrow> file_bytes w2 p = file_bytes w p @ data"
  by (simp add: open_append_Inr(1) file_bytes_def)

lemma open_append_writable:
  "p \<noteq> [] \<Longrightarrow> \<not> endswith_sep p \<Longrightarrow> \<not> readonly w p \<Longrightarrow> files w p \<noteq> Some Dir \<Longrightarrow>
   open_append w p data = Inr (w\<lparr>files := (files w)(p \<mapsto> File (file_bytes w p @ data))\<rparr>)"
  by (simp add: open_append_def)

section \<open>Directories\<close>

lemma os_makedirs_absent:
  "files w p = None \<Longrightarrow>
   os_makedirs w p = (if readonly w p then Inl PermissionError else Inr (w\<lparr>files := (files w)(p \<mapsto> Dir)\<rparr>))"
  by (simp add: os_makedirs_def)

lemma conflict_suffix_nonempty: "conflict_suffix \<noteq> []"
  by (simp add: conflict_suffix_def)

lemma conflict_path_neq: "p @ conflict_suffix \<noteq> p"
  by (simp add: conflict_suffix_nonempty)










section \<open>The download loop\<close>

text \<open>The five ways one round of the loop can go.\<close>

lemma download_loop_done:
  "\<not> d < s \<Longrightarrow> download_loop c b k lp s d n w = (Inr (True, n), w)"
  by (subst download_loop.simps) simp

lemma download_loop_client_error:
  "d < s \<Longrightarrow> get_object c (calls w) b k d (end_byte d s) = Inl ClientError \<Longrightarrow>
   download_loop c b k lp s d n w = (Inr (False, n), record_call w (GetObject b k d (end_byte d s)))"
  by (subst download_loop.simps) simp

lemma download_loop_empty_body:
  "d < s \<Longrightarrow> get_object c (calls w) b k d (end_byte d s) = Inr [] \<Longrightarrow>
   download_loop c b k lp s d n w = (Inr (False, n), record_call w (GetObject b k d (end_byte d s)))"
  by (subst download_loop.simps) simp

lemma download_loop_os_error:
  "d < s \<Longrightarrow> get_object c (calls w) b k d (end_byte d s) = Inr data \<Longrightarrow> data \<noteq> [] \<Longrightarrow>
   open_append (record_call w (GetObject b k d (end_byte d s))) lp data = Inl e \<Longrightarrow>
   download_loop c b k lp s d n w = (Inl e, record_call w (GetObject b k d (end_byte d s)))"
  by (subst download_loop.simps) simp

lemma download_loop_next:
  "d < s \<Longrightarrow> get_object c (calls w) b k d (end_byte d s) = Inr data \<Longrightarrow> data \<noteq> [] \<Longrightarrow>
   open_append (record_call w (GetObject b k d (end_byte d s))) lp data = Inr w2 \<Longrightarrow>
   download_loop c b k lp s d n w = download_loop c b k lp s (d + length data) (n + length data) w2"
  by (subst download_loop.simps) simp

lemma download_loop_cases:
  obtains (finished) "\<not> d < s"
  | (client_error) "d < s" "get_object c (calls w) b k d (end_byte d s) = Inl ClientError"
  | (empty_body) "d < s" "get_object c (calls w) b k d (end_byte d s) = Inr []"
  | (os_error) data e where "d < s" "get_object c (calls w) b k d (end_byte d s) = Inr data"
      "data \<noteq> []" 
      "open_append (record_call w (GetObject b k d (end_byte d s))) lp data = Inl e"
  | (appended) data w2 where "d < s" "get_object c (calls w) b k d (end_byte d s) = Inr data"
      "data \<noteq> []" 
      "open_append (record_call w (GetObject b k d (end_byte d s))) lp data = Inr w2"
proof (cases "d < s")
  case False
  then show ?thesis by (rule finished)
next
  case True
  show ?thesis
  proof (cases "get_object c (calls w) b k d (end_byte d s)")
    case (Inl err)
    then have "get_object c (calls w) b k d (end_byte d s) = Inl ClientError"
      by (cases err) simp
    with True show ?thesis by (rule client_error)
  next
    case (Inr data)
    show ?thesis
    proof (cases "data = []")
      case True
      with Inr \<open>d < s\<close> show ?thesis by (auto intro: empty_body)
    next
      case False
      show ?thesis
      proof (cases "open_append (record_call w (GetObject b k d (end_byte d s))) lp data")
        case (Inl e)
        with True Inr False show ?thesis by (rule os_error)
      next
        case (Inr w2)
        with True \<open>get_object c (calls w) b k d (end_byte d s) = Inr data\<close> False
        show ?thesis by (rule appended)
      qed
    qed
  qed
qed

text \<open>What every run of the loop does to the world, whatever the store answers.\<close>

lemma download_loop_frame:
  "download_loop c b k lp s d n w = (res, w') \<Longrightarrow>
   (\<exists>rs. calls w' = calls w @ map (\<lambda>(a, e). GetObject b k a e) rs) \<and>
   readonly w' = readonly w \<and> dir_size w' = dir_size w \<and>
   (\<forall>q. q \<noteq> lp \<longrightarrow> files w' q = files w q) \<and>
   (\<exists>added. file_bytes w' lp = file_bytes w lp @ added)"
proof (induction c b k lp s d n w arbitrary: res w' rule: download_loop.induct)
  case (1 c b k lp s d n w)
  note IH = "1.IH" and run = "1.prems"
  let ?g = "GetObject b k d (end_byte d s)"
  let ?w1 = "record_call w ?g"
  have one: "calls ?w1 = calls w @ map (\<lambda>(a, e). GetObject b k a e) [(d, end_byte d s)]"
    by (simp add: calls_record_call)
  show ?case
  proof (cases rule: download_loop_cases [where d=d and s=s and c=c and w=w and b=b and k=k and lp=lp])
    case finished
    with run have "w' = w" by (simp add: download_loop_done)
    then show ?thesis by simp
  next
    case client_error
    with run have "w' = ?w1" by (simp add: download_loop_client_error)
    with one show ?thesis
      by (metis append_Nil2 dir_size_record_call file_bytes_record_call files_record_call
          readonly_record_call)
  next
    case empty_body
    with run have "w' = ?w1" by (simp add: download_loop_empty_body)
    with one show ?thesis
      by (metis append_Nil2 dir_size_record_call file_bytes_record_call files_record_call
          readonly_record_call)
  next
    case (os_error data e)
    with run have "w' = ?w1" by (simp add: download_loop_os_error)
    with one show ?thesis
      by (metis append_Nil2 dir_size_record_call file_bytes_record_call files_record_call
          readonly_record_call)
  next
    case (appended data w2)
    from appended run have rec: "download_loop c b k lp s (d + length data) (n + length data) w2 = (res, w')"
      by (simp add: download_loop_next)
    note app = open_append_Inr [OF appended(4)] open_append_file_bytes [OF appended(4)]
    from IH [OF appended(1) appended(2) appended(3) appended(4) rec]
    obtain rs added where
      c: "calls w' = calls w2 @ map (\<lambda>(a, e). GetObject b k a e) rs" and
      r: "readonly w' = readonly w2" "dir_size w' = dir_size w2" and
      f: "\<forall>q. q \<noteq> lp \<longrightarrow> files w' q = files w2 q" and
      a: "file_bytes w' lp = file_bytes w2 lp @ added"
      by blast
    have "calls w' = calls w @ map (\<lambda>(a, e). GetObject b k a e) ((d, end_byte d s) # rs)"
      using c app(2) by (simp add: calls_record_call)
    moreover have "readonly w' = readonly w" "dir_size w' = dir_size w"
      using r app by (simp_all add: readonly_record_call dir_size_record_call)
    moreover have "\<forall>q. q \<noteq> lp \<longrightarrow> files w' q = files w q"
      using f app(1) by (simp add: files_record_call)
    moreover have "file_bytes w' lp = file_bytes w lp @ (data @ added)"
      using a app(9) by (simp add: file_bytes_record_call)
    ultimately show ?thesis by blast
  qed
qed

lemma chunk_size_pos: "0 < chunk_size"
  by (simp add: chunk_size_def)

lemma end_byte_bounds:
  assumes "d < s"
  shows "d \<le> end_byte d s" and "end_byte d s < s" and "end_byte d s < d + chunk_size"
  using assms chunk_size_pos by (auto simp: end_byte_def min_def)


lemma take_range_bytes:
  "d \<le> Suc e \<Longrightarrow> take d content @ range_bytes content d e = take (Suc e) content"
  by (simp add: range_bytes_def take_add [symmetric])

lemma length_range_bytes:
  "e < length content \<Longrightarrow> length (range_bytes content d e) = Suc e - d"
  by (simp add: range_bytes_def)

lemma upt_split: "d \<le> j \<Longrightarrow> j \<le> m \<Longrightarrow> [d..<m] = [d..<j] @ [j..<m]"
  using upt_add_eq_append [of d j "m - j"] by simp

lemma download_loop_honest:
  assumes honest: "\<forall>h a e. get_object c h b k a e = Inl ClientError
                     \<or> get_object c h b k a e = Inr (range_bytes content a e)"
      and s: "s = length content"
      and fl0: "files w lp = Some (File (take d content))"
      and le: "d \<le> s"
      and run: "download_loop c b k lp s d n w = (res, w')"
  shows "\<exists>rs m f. calls w' = calls w @ map (\<lambda>(a, e). GetObject b k a e) rs \<and>
           (\<forall>(a, e)\<in>set rs. a \<le> e \<and> e < a + chunk_size) \<and>
           concat (map (\<lambda>(a, e). [a..<Suc e]) rs) = [d..<m] \<and>
           d \<le> f \<and> f \<le> m \<and> m \<le> s \<and>
           files w' lp = Some (File (take f content)) \<and>
           (\<forall>ok nb. res = Inr (ok, nb) \<longrightarrow> nb = n + (f - d) \<and> (ok \<longleftrightarrow> f = s))"
  using assms
proof (induction c b k lp s d n w arbitrary: res w' rule: download_loop.induct)
  case (1 c b k lp s d n w)
  note IH = "1.IH" and honest = "1.prems"(1) and s = "1.prems"(2) and fl0 = "1.prems"(3)
    and le = "1.prems"(4) and run = "1.prems"(5)
  let ?e = "end_byte d s"
  let ?g = "GetObject b k d ?e"
  let ?w1 = "record_call w ?g"
  have stop: ?case
    if w': "w' = ?w1" and res: "\<forall>ok nb. res = Inr (ok, nb) \<longrightarrow> \<not> ok \<and> nb = n" and lt: "d < s"
  proof -
    note eb = end_byte_bounds [OF lt]
    have 1: "calls w' = calls w @ map (\<lambda>(a, e). GetObject b k a e) [(d, ?e)]"
      using w' by (simp add: calls_record_call)
    have 2: "\<forall>(a, e)\<in>set [(d, ?e)]. a \<le> e \<and> e < a + chunk_size"
      using eb by simp
    have 3: "concat (map (\<lambda>(a, e). [a..<Suc e]) [(d, ?e)]) = [d..<Suc ?e]"
      by simp
    have 4: "d \<le> d" "d \<le> Suc ?e" "Suc ?e \<le> s"
      using eb by simp_all
    have 5: "files w' lp = Some (File (take d content))"
      using w' fl0 by (simp add: files_record_call)
    have 6: "\<forall>ok nb. res = Inr (ok, nb) \<longrightarrow> nb = n + (d - d) \<and> (ok \<longleftrightarrow> d = s)"
      using res lt by auto
    show ?thesis
      apply (rule exI [of _ "[(d, ?e)]"])
      apply (rule exI [of _ "Suc ?e"])
      apply (rule exI [of _ d])
      using 1 2 3 4 5 6 apply (intro conjI)
             apply assumption+
      done
  qed
  show ?case
  proof (cases rule: download_loop_cases [where d=d and s=s and c=c and w=w and b=b and k=k and lp=lp])
    case finished
    with le have d: "d = s" by simp
    from finished run have r: "res = Inr (True, n)" "w' = w"
      by (simp_all add: download_loop_done)
    have 1: "calls w' = calls w @ map (\<lambda>(a, e). GetObject b k a e) []"
      using r by simp
    have 3: "concat (map (\<lambda>(a, e). [a..<Suc e]) []) = [d..<d]" by simp
    have 5: "files w' lp = Some (File (take d content))" using r fl0 by simp
    have 6: "\<forall>ok nb. res = Inr (ok, nb) \<longrightarrow> nb = n + (d - d) \<and> (ok \<longleftrightarrow> d = s)"
      using r d by simp
    show ?thesis
      apply (rule exI [of _ "[]"])
      apply (rule exI [of _ d])
      apply (rule exI [of _ d])
      using 1 3 5 6 le apply simp
      done
  next
    case client_error
    with run have "w' = ?w1" "res = Inr (False, n)"
      by (simp_all add: download_loop_client_error)
    with client_error(1) show ?thesis by (intro stop) simp_all
  next
    case empty_body
    with run have "w' = ?w1" "res = Inr (False, n)"
      by (simp_all add: download_loop_empty_body)
    with empty_body(1) show ?thesis by (intro stop) simp_all
  next
    case (os_error data err)
    with run have "w' = ?w1" "res = Inl err"
      by (simp_all add: download_loop_os_error)
    with os_error(1) show ?thesis by (intro stop) simp_all
  next
    case (appended data w2)
    note eb = end_byte_bounds [OF appended(1)]
    from honest have "get_object c (calls w) b k d ?e = Inl ClientError
        \<or> get_object c (calls w) b k d ?e = Inr (range_bytes content d ?e)"
      by blast
    with appended(2) have data: "data = range_bytes content d ?e"
      by simp
    with eb s have len: "length data = Suc ?e - d"
      by (simp add: length_range_bytes)
    with eb have d': "d + length data = Suc ?e" by simp
    from appended run have rec: "download_loop c b k lp s (d + length data) (n + length data) w2 = (res, w')"
      by (simp add: download_loop_next)
    note app = open_append_Inr [OF appended(4)]
    have fb: "file_bytes ?w1 lp = take d content"
      using fl0 by (simp add: file_bytes_def files_record_call)
    have "take d content @ data = take (Suc ?e) content"
      unfolding data using eb by (intro take_range_bytes) simp
    then have file2: "files w2 lp = Some (File (take (d + length data) content))"
      using app(1) fb d' by simp
    have le2: "d + length data \<le> s" using d' eb by simp
    from IH [OF appended(1) appended(2) appended(3) appended(4) honest s file2 le2 rec]
    obtain rs m f where
      c: "calls w' = calls w2 @ map (\<lambda>(a, e). GetObject b k a e) rs" and
      b: "\<forall>(a, e)\<in>set rs. a \<le> e \<and> e < a + chunk_size" and
      u: "concat (map (\<lambda>(a, e). [a..<Suc e]) rs) = [d + length data..<m]" and
      o: "d + length data \<le> f" "f \<le> m" "m \<le> s" and
      fl: "files w' lp = Some (File (take f content))" and
      r: "\<forall>ok nb. res = Inr (ok, nb) \<longrightarrow> nb = n + length data + (f - (d + length data))
            \<and> (ok \<longleftrightarrow> f = s)"
      by blast
    have 1: "calls w' = calls w @ map (\<lambda>(a, e). GetObject b k a e) ((d, ?e) # rs)"
      using c app(2) by (simp add: calls_record_call)
    have 2: "\<forall>(a, e)\<in>set ((d, ?e) # rs). a \<le> e \<and> e < a + chunk_size"
      using b eb by simp
    have "[d..<m] = [d..<Suc ?e] @ [Suc ?e..<m]"
      using o d' eb by (intro upt_split) simp_all
    with u d' have 3: "concat (map (\<lambda>(a, e). [a..<Suc e]) ((d, ?e) # rs)) = [d..<m]"
      by simp
    have 4: "d \<le> f" using o by simp
    have 6: "\<forall>ok nb. res = Inr (ok, nb) \<longrightarrow> nb = n + (f - d) \<and> (ok \<longleftrightarrow> f = s)"
    proof (intro allI impI)
      fix ok nb assume "res = Inr (ok, nb)"
      with r have "nb = n + length data + (f - (d + length data))" "ok \<longleftrightarrow> f = s" by simp_all
      with o show "nb = n + (f - d) \<and> (ok \<longleftrightarrow> f = s)" by simp
    qed
    show ?thesis
      apply (rule exI [of _ "(d, ?e) # rs"])
      apply (rule exI [of _ m])
      apply (rule exI [of _ f])
      using 1 2 3 4 o(2,3) fl 6 apply (intro conjI)
             apply assumption+
      done
  qed
qed

section \<open>The resumable transfer\<close>

text \<open>
  C3. When the size observed for the local path is already at least the expected size,
  \<open>download_file_resumable\<close> returns \<open>(True, 0)\<close> and the world it returns is the
  world it was given: no call to the object store is recorded and no file is touched.
  A second call on the result is the same no-op.
\<close>

theorem transfer_short_circuit:
  assumes "current_local_size w local_path = Inr n" and "expected_size \<le> n"
  shows "download_file_resumable c w bucket_name key local_path expected_size = (Inr (True, 0), w) \<and>
         download_file_resumable c
           (snd (download_file_resumable c w bucket_name key local_path expected_size))
           bucket_name key local_path expected_size = (Inr (True, 0), w)"
  using assms by (simp add: download_file_resumable_def)

theorem transfer_short_circuit_witness:
  "current_local_size demo_world ''root/b1/a.bin'' = Inr 3 \<and>
   download_file_resumable demo_client demo_world ''b1'' ''a.bin'' ''root/b1/a.bin'' 3
     = (Inr (True, 0), demo_world)"
proof -
  have size: "current_local_size demo_world ''root/b1/a.bin'' = Inr 3"
    by (simp add: current_local_size_def os_path_exists_def os_path_getsize_def demo_world_def)
  from transfer_short_circuit [OF size, of 3 demo_client "''b1''" "''a.bin''"] size
  show ?thesis by simp
qed

lemma download_loop_succeeds:
  assumes full: "\<forall>h a e. get_object c h b k a e = Inr (range_bytes content a e)"
      and s: "s = length content"
      and wr: "lp \<noteq> []" "\<not> endswith_sep lp" "\<not> readonly w lp" "files w lp \<noteq> Some Dir"
      and le: "d \<le> s"
  shows "\<exists>nb w'. download_loop c b k lp s d n w = (Inr (True, nb), w')"
  using assms
proof (induction c b k lp s d n w rule: download_loop.induct)
  case (1 c b k lp s d n w)
  note IH = "1.IH" and full = "1.prems"(1) and s = "1.prems"(2) and wr = "1.prems"(3-6)
    and le = "1.prems"(7)
  show ?case
  proof (cases "d < s")
    case False
    then show ?thesis by (simp add: download_loop_done)
  next
    case True
    note eb = end_byte_bounds [OF True]
    let ?e = "end_byte d s"
    let ?data = "range_bytes content d ?e"
    let ?w1 = "record_call w (GetObject b k d ?e)"
    let ?w2 = "?w1\<lparr>files := (files ?w1)(lp \<mapsto> File (file_bytes ?w1 lp @ ?data))\<rparr>"
    from full have get: "get_object c (calls w) b k d ?e = Inr ?data" by blast
    have len: "length ?data = Suc ?e - d"
      using eb s by (simp add: length_range_bytes)
    with eb have ne: "?data \<noteq> []" by auto
    have app: "open_append ?w1 lp ?data = Inr ?w2"
      using wr by (intro open_append_writable) (simp_all add: files_record_call readonly_record_call)
    have wr2: "\<not> readonly ?w2 lp" "files ?w2 lp \<noteq> Some Dir"
      using wr by (simp_all add: readonly_record_call)
    have le2: "d + length ?data \<le> s" using len eb by simp
    from IH [OF True get ne app full s wr(1,2) wr2 le2]
    show ?thesis
      by (simp add: download_loop_next [OF True get ne app])
  qed
qed

lemma current_local_size_file:
  "files w lp = Some (File content) \<Longrightarrow> current_local_size w lp = Inr (length content)"
  by (simp add: current_local_size_def os_path_exists_def os_path_getsize_def)

lemma current_local_size_absent:
  "files w lp = None \<Longrightarrow> current_local_size w lp = Inr 0"
  by (simp add: current_local_size_def os_path_exists_def)

text \<open>
  C1. The store holds an object \<open>content\<close> and answers every range request either with
  \<^verbatim>\<open>ClientError\<close> or with exactly the requested bytes; the local file holds the first
  \<open>k\<close> bytes of the object, \<open>0 < k < length content\<close>. Then the calls that
  \<open>download_file_resumable\<close> adds are range requests for this object whose ranges
  \<open>[a, e]\<close> are non-empty, at most \<open>chunk_size\<close> bytes long, consecutive and start at
  \<open>k\<close>: laid end to end they are the positions \<open>k, ..., m - 1\<close> for some
  \<open>m \<le> length content\<close>, and \<open>m = length content\<close> when the call reports success. The
  local file is always a prefix of the object that is at least \<open>k\<close> bytes long (nothing
  is truncated or overwritten), no other file changes, and on success the file is the
  whole object and the count returned is \<open>length content - k\<close>. Success is reached
  whenever no request fails and the local path can be written.
\<close>

theorem resume_correctness:
  assumes honest: "\<forall>h a e. get_object c h b key a e = Inl ClientError
                     \<or> get_object c h b key a e = Inr (range_bytes content a e)"
      and local: "files w lp = Some (File (take k content))"
      and k: "0 < k" "k < length content"
      and run: "download_file_resumable c w b key lp (length content) = (res, w')"
  shows "(\<exists>rs m. calls w' = calls w @ map (\<lambda>(a, e). GetObject b key a e) rs \<and>
            (\<forall>(a, e)\<in>set rs. a \<le> e \<and> e < a + chunk_size) \<and>
            concat (map (\<lambda>(a, e). [a..<Suc e]) rs) = [k..<m] \<and> m \<le> length content \<and>
            (\<forall>nb. res = Inr (True, nb) \<longrightarrow> m = length content)) \<and>
         (\<exists>f. k \<le> f \<and> files w' lp = Some (File (take f content))) \<and>
         (\<forall>q. q \<noteq> lp \<longrightarrow> files w' q = files w q) \<and>
         (\<forall>nb. res = Inr (True, nb) \<longrightarrow>
            nb = length content - k \<and> files w' lp = Some (File content)) \<and>
         ((\<forall>h a e. get_object c h b key a e \<noteq> Inl ClientError) \<and> lp \<noteq> []
            \<and> \<not> endswith_sep lp \<and> \<not> readonly w lp \<longrightarrow> (\<exists>nb. res = Inr (True, nb)))"
proof -
  from local k have size0: "current_local_size w lp = Inr k"
    by (simp add: current_local_size_file)
  with k run have loop: "download_loop c b key lp (length content) k 0 w = (res, w')"
    by (simp add: download_file_resumable_def)
  from k have le: "k \<le> length content" by simp
  from download_loop_honest [OF honest refl local le loop]
  obtain rs m f where
    c: "calls w' = calls w @ map (\<lambda>(a, e). GetObject b key a e) rs" and
    b: "\<forall>(a, e)\<in>set rs. a \<le> e \<and> e < a + chunk_size" and
    u: "concat (map (\<lambda>(a, e). [a..<Suc e]) rs) = [k..<m]" and
    o: "k \<le> f" "f \<le> m" "m \<le> length content" and
    fl: "files w' lp = Some (File (take f content))" and
    r: "\<forall>ok nb. res = Inr (ok, nb) \<longrightarrow> nb = 0 + (f - k) \<and> (ok \<longleftrightarrow> f = length content)"
    by blast
  have ok: "f = length content \<and> m = length content \<and> nb = length content - k"
    if "res = Inr (True, nb)" for nb
    using r o that by auto
  have 1: "\<exists>rs m. calls w' = calls w @ map (\<lambda>(a, e). GetObject b key a e) rs \<and>
            (\<forall>(a, e)\<in>set rs. a \<le> e \<and> e < a + chunk_size) \<and>
            concat (map (\<lambda>(a, e). [a..<Suc e]) rs) = [k..<m] \<and> m \<le> length content \<and>
            (\<forall>nb. res = Inr (True, nb) \<longrightarrow> m = length content)"
    using c b u o(3) ok by blast
  have 2: "\<exists>f. k \<le> f \<and> files w' lp = Some (File (take f content))"
    using o(1) fl by blast
  have 3: "\<forall>q. q \<noteq> lp \<longrightarrow> files w' q = files w q"
    using download_loop_frame [OF loop] by blast
  have 4: "\<forall>nb. res = Inr (True, nb) \<longrightarrow>
            nb = length content - k \<and> files w' lp = Some (File content)"
    using ok fl by auto
  have 5: "(\<forall>h a e. get_object c h b key a e \<noteq> Inl ClientError) \<and> lp \<noteq> []
            \<and> \<not> endswith_sep lp \<and> \<not> readonly w lp \<longrightarrow> (\<exists>nb. res = Inr (True, nb))"
  proof
    assume a: "(\<forall>h a e. get_object c h b key a e \<noteq> Inl ClientError) \<and> lp \<noteq> []
            \<and> \<not> endswith_sep lp \<and> \<not> readonly w lp"
    with honest have full: "\<forall>h a e. get_object c h b key a e = Inr (range_bytes content a e)"
      by blast
    from local have nd: "files w lp \<noteq> Some Dir" by simp
    from download_loop_succeeds [OF full refl _ _ _ nd le, of 0] a loop
    show "\<exists>nb. res = Inr (True, nb)" by auto
  qed
  from 1 2 3 4 5 show ?thesis by (intro conjI)
qed

theorem resume_correctness_witness:
  "fst (download_file_resumable honest_client partial_world ''b1'' ''a.bin'' ''root/b1/a.bin'' 5)
     = Inr (True, 3) \<and>
   files (snd (download_file_resumable honest_client partial_world ''b1'' ''a.bin''
     ''root/b1/a.bin'' 5)) ''root/b1/a.bin'' = Some (File five_bytes)"
proof -
  let ?run = "download_file_resumable honest_client partial_world ''b1'' ''a.bin'' ''root/b1/a.bin''
     (length five_bytes)"
  have honest: "\<forall>h a e. get_object honest_client h ''b1'' ''a.bin'' a e = Inl ClientError
      \<or> get_object honest_client h ''b1'' ''a.bin'' a e = Inr (range_bytes five_bytes a e)"
    by (simp add: honest_client_def)
  have local: "files partial_world ''root/b1/a.bin'' = Some (File (take 2 five_bytes))"
    by (simp add: partial_world_def five_bytes_def)
  have k: "0 < (2::nat)" "2 < length five_bytes"
    by (simp_all add: five_bytes_def)
  have run: "?run = (fst ?run, snd ?run)" by simp
  note inst = resume_correctness [OF honest local k run]
  have never: "(\<forall>h a e. get_object honest_client h ''b1'' ''a.bin'' a e \<noteq> Inl ClientError)
      \<and> ''root/b1/a.bin'' \<noteq> [] \<and> \<not> endswith_sep ''root/b1/a.bin''
      \<and> \<not> readonly partial_world ''root/b1/a.bin''"
    by (simp add: honest_client_def partial_world_def endswith_sep_def sep_def suffix_def)
  from inst never obtain nb where ok: "fst ?run = Inr (True, nb)" by blast
  with inst have "nb = length five_bytes - 2"
    "files (snd ?run) ''root/b1/a.bin'' = Some (File five_bytes)"
    by blast+
  with ok have "fst ?run = Inr (True, 3) \<and> files (snd ?run) ''root/b1/a.bin'' = Some (File five_bytes)"
    by (simp add: five_bytes_def)
  moreover have "length five_bytes = 5" by (simp add: five_bytes_def)
  ultimately show ?thesis by simp
qed






lemma current_local_size_total: "\<exists>n. current_local_size w lp = Inr n"
  by (auto simp: current_local_size_def os_path_exists_def os_path_getsize_def
      split: option.splits node.splits)

lemma download_file_resumable_cases:
  assumes "download_file_resumable c w b key lp s = (res, w')"
  obtains (complete) n where "current_local_size w lp = Inr n" "s \<le> n" "res = Inr (True, 0)" "w' = w"
  | (transfer) n where "current_local_size w lp = Inr n" "n < s"
      "download_loop c b key lp s n 0 w = (res, w')"
proof -
  from current_local_size_total obtain n where n: "current_local_size w lp = Inr n" by blast
  show ?thesis
  proof (cases "s \<le> n")
    case True
    with n assms have "res = Inr (True, 0)" "w' = w"
      by (simp_all add: download_file_resumable_def)
    with n True show ?thesis by (rule complete)
  next
    case False
    with n assms have "download_loop c b key lp s n 0 w = (res, w')"
      by (simp add: download_file_resumable_def)
    with n False show ?thesis by (intro transfer) simp_all
  qed
qed


lemma ensure_directory_calls: "ensure_directory w p = (r, w') \<Longrightarrow> calls w' = calls w"
  by (auto simp: ensure_directory_def makedirs_logged_def os_rename_def os_makedirs_def
      split: if_splits sum.splits option.splits node.splits)







section \<open>The bucket run\<close>


lemma files_delete_s3_object: "files (delete_s3_object w b key del) = files w"
  by (simp add: delete_s3_object_def files_record_call)

lemma getsize_exists:
  "os_path_exists w p \<Longrightarrow> \<exists>n. os_path_getsize w p = Inr n"
  by (auto simp: os_path_exists_def os_path_getsize_def split: node.splits)

lemma download_one_step:
  assumes ens: "ensure_directory w (os_path_dirname (local_path_of dd b obj)) = (Inr (), w1)"
      and run: "download_file_resumable c w1 b (Key obj) (local_path_of dd b obj) (obj_size obj)
                  = (Inr (success, nb), w2)"
  shows "download_one c b dd del obj db w =
           (if fully_downloaded success w2 (local_path_of dd b obj) (obj_size obj)
            then (Inr (db + obj_size obj), delete_s3_object w2 b (Key obj) del)
            else (Inr db, w2))"
proof (cases "success \<and> os_path_exists w2 (local_path_of dd b obj)")
  case True
  then obtain n where "os_path_getsize w2 (local_path_of dd b obj) = Inr n"
    using getsize_exists by blast
  with True ens run show ?thesis
    by (simp add: download_one_def fully_downloaded_def)
next
  case False
  with ens run show ?thesis
    by (auto simp: download_one_def fully_downloaded_def)
qed






lemma split_contents_partition:
  "split_contents objs (fs, ds) = (fs', ds') \<Longrightarrow>
   \<forall>ob\<in>set fs. \<not> endswith_sep (Key ob) \<Longrightarrow> \<forall>ob\<in>set ds. endswith_sep (Key ob) \<Longrightarrow>
   (\<forall>ob\<in>set fs'. \<not> endswith_sep (Key ob)) \<and> (\<forall>ob\<in>set ds'. endswith_sep (Key ob))"
proof (induction objs arbitrary: fs ds)
  case Nil
  then show ?case by simp
next
  case (Cons obj objs)
  show ?case
  proof (cases "endswith_sep (Key obj)")
    case True
    with Cons.prems have "split_contents objs (fs, ds @ [obj]) = (fs', ds')" by simp
    from Cons.IH [OF this] Cons.prems True show ?thesis by simp
  next
    case False
    with Cons.prems have "split_contents objs (fs @ [obj], ds) = (fs', ds')" by simp
    from Cons.IH [OF this] Cons.prems False show ?thesis by simp
  qed
qed

lemma read_pages_partition:
  "read_pages ps (fs, ds) = ((fs', ds'), n) \<Longrightarrow>
   \<forall>ob\<in>set fs. \<not> endswith_sep (Key ob) \<Longrightarrow> \<forall>ob\<in>set ds. endswith_sep (Key ob) \<Longrightarrow>
   (\<forall>ob\<in>set fs'. \<not> endswith_sep (Key ob)) \<and> (\<forall>ob\<in>set ds'. endswith_sep (Key ob))"
proof (induction ps "(fs, ds)" arbitrary: fs ds n rule: read_pages.induct)
  case 1
  then show ?case by simp
next
  case (2 ps)
  then show ?case by simp
next
  case (3 ps)
  then show ?case by (auto split: prod.splits)
next
  case (4 objs ps)
  obtain fs1 ds1 where sc: "split_contents objs (fs, ds) = (fs1, ds1)"
    by (cases "split_contents objs (fs, ds)")
  from split_contents_partition [OF sc "4.prems"(2,3)]
  have p: "\<forall>ob\<in>set fs1. \<not> endswith_sep (Key ob)" "\<forall>ob\<in>set ds1. endswith_sep (Key ob)"
    by simp_all
  from "4.prems"(1) sc obtain n' where "read_pages ps (fs1, ds1) = ((fs', ds'), n')"
    by (auto split: prod.splits)
  from "4.hyps" [OF sc this p] show ?case .
qed

lemma list_bucket_objects_partition:
  assumes "list_bucket_objects c w b = ((fs, ds), w0)"
  shows "(\<forall>ob\<in>set fs. \<not> endswith_sep (Key ob)) \<and> (\<forall>ob\<in>set ds. endswith_sep (Key ob)) \<and>
         (\<exists>n. calls w0 = calls w @ replicate n (ListObjectsV2 b)) \<and> files w0 = files w \<and>
         readonly w0 = readonly w \<and> dir_size w0 = dir_size w"
proof -
  obtain n where rp: "read_pages (paginate c (calls w) b) ([], []) = ((fs, ds), n)"
    and w0: "w0 = w\<lparr>calls := calls w @ replicate n (ListObjectsV2 b)\<rparr>"
    using assms by (auto simp: list_bucket_objects_def split: prod.splits)
  from read_pages_partition [OF rp] w0 show ?thesis by auto
qed










lemma ensure_directory_stable:
  "ensure_directory w p = (re, w1) \<Longrightarrow> \<exists>re'. ensure_directory w1 p = (re', w1)"
  by (auto simp: ensure_directory_def makedirs_logged_def os_rename_def os_makedirs_def
      os_path_exists_def os_path_isdir_def conflict_suffix_nonempty
      split: if_splits sum.splits option.splits node.splits)

lemma local_path_empty_obj: "local_path_of ''root'' ''b1'' empty_obj = ''root/b1/empty.dat''"
  by (simp add: local_path_of_def os_path_join_def join2_def empty_obj_def endswith_sep_def
      sep_def suffix_def)

lemma dirname_empty_obj: "os_path_dirname ''root/b1/empty.dat'' = ''root/b1''"
  by (simp add: os_path_dirname_def rstrip_sep_def sep_def)

text \<open>
  C10. The declared size of \<open>obj\<close> is 0 and, once \<open>ensure_directory\<close> has run for its
  parent directory, there is no node at its local path. Then the transfer returns
  \<open>(True, 0)\<close> and the world it was given: no range request, no file created. The test
  after the transfer fails because the path does not exist, so the loop body leaves the
  byte counter as it was and records no call at all, in particular no deletion. The
  world after the body is a fixed point of the body: every later run over this object
  does the same.
\<close>

theorem zero_size_never_verified:
  assumes zero: "obj_size obj = 0"
      and lp: "lp = local_path_of dd b obj"
      and ens: "ensure_directory w (os_path_dirname lp) = (re, w1)"
      and absent: "files w1 lp = None"
  shows "download_file_resumable c w1 b (Key obj) lp (obj_size obj) = (Inr (True, 0), w1) \<and>
         \<not> fully_downloaded True w1 lp (obj_size obj) \<and>
         download_one c b dd del obj db w = (Inr db, w1) \<and>
         download_one c b dd del obj db w1 = (Inr db, w1) \<and>
         calls w1 = calls w"
proof -
  from absent have size0: "current_local_size w1 lp = Inr 0"
    by (rule current_local_size_absent)
  with zero have run: "download_file_resumable c w1 b (Key obj) lp (obj_size obj) = (Inr (True, 0), w1)"
    by (simp add: download_file_resumable_def)
  from absent have gate: "\<not> fully_downloaded True w1 lp (obj_size obj)"
    by (simp add: fully_downloaded_def os_path_exists_def)
  have step: "download_one c b dd del obj db v = (Inr db, w1)"
    if "ensure_directory v (os_path_dirname lp) = (rv, w1)" for v rv
  proof (cases rv)
    case (Inl e)
    with that show ?thesis by (simp add: download_one_def lp)
  next
    case (Inr u)
    with that have "ensure_directory v (os_path_dirname (local_path_of dd b obj)) = (Inr (), w1)"
      by (simp add: lp)
    from download_one_step [OF this run [unfolded lp], of del db] gate
    show ?thesis by (simp add: lp)
  qed
  from ensure_directory_stable [OF ens] obtain re' where
    "ensure_directory w1 (os_path_dirname lp) = (re', w1)" by blast
  then have again: "download_one c b dd del obj db w1 = (Inr db, w1)" by (rule step)
  from ens have first: "download_one c b dd del obj db w = (Inr db, w1)" by (rule step)
  from run gate first again ensure_directory_calls [OF ens] show ?thesis by (intro conjI)
qed

theorem zero_size_never_verified_witness:
  "download_file_resumable demo_client bucket_world ''b1'' ''empty.dat'' ''root/b1/empty.dat'' 0
     = (Inr (True, 0), bucket_world) \<and>
   download_one demo_client ''b1'' ''root'' True empty_obj 0 bucket_world = (Inr 0, bucket_world)"
proof -
  have zero: "obj_size empty_obj = 0" and key: "Key empty_obj = ''empty.dat''"
    by (simp_all add: empty_obj_def obj_size_def)
  have ens: "ensure_directory bucket_world (os_path_dirname ''root/b1/empty.dat'')
      = (Inr (), bucket_world)"
    by (simp add: dirname_empty_obj ensure_directory_def os_path_exists_def os_path_isdir_def
        bucket_world_def)
  have absent: "files bucket_world ''root/b1/empty.dat'' = None"
    by (simp add: bucket_world_def)
  from zero_size_never_verified [OF zero local_path_empty_obj [symmetric] ens absent,
      of demo_client True 0]
  show ?thesis by (simp add: zero key)
qed

section \<open>Listing failures\<close>





section \<open>The filesystem invariant\<close>

text \<open>
  The script keeps the invariant: it writes files only through \<open>open_append\<close>, which
  refuses a path that ends in the separator, and it renames only to a path that ends in
  \<open>_file_conflict\<close>.
\<close>

lemma inv_record_call: "no_file_at_dir_path (record_call w x) = no_file_at_dir_path w"
  by (simp add: no_file_at_dir_path_def files_record_call)

lemma inv_open_append:
  "open_append w p data = Inr w2 \<Longrightarrow> no_file_at_dir_path w \<Longrightarrow> no_file_at_dir_path w2"
  by (auto simp: no_file_at_dir_path_def open_append_def split: if_splits)

lemma inv_makedirs:
  "os_makedirs w p = Inr w2 \<Longrightarrow> no_file_at_dir_path w \<Longrightarrow> no_file_at_dir_path w2"
  by (auto simp: no_file_at_dir_path_def os_makedirs_def
      split: if_splits option.splits node.splits)

lemma conflict_path_no_sep: "\<not> endswith_sep (p @ conflict_suffix)"
  by (simp add: endswith_sep_def conflict_suffix_def sep_def suffix_def)

lemma inv_rename_conflict:
  "os_rename w p (p @ conflict_suffix) = Inr w2 \<Longrightarrow> no_file_at_dir_path w \<Longrightarrow>
   no_file_at_dir_path w2"
  by (auto simp: no_file_at_dir_path_def os_rename_def conflict_path_no_sep
      split: if_splits option.splits)

lemma inv_ensure_directory:
  assumes "ensure_directory w p = (r, w')" and "no_file_at_dir_path w"
  shows "no_file_at_dir_path w'"
proof (cases "os_path_exists w p \<and> \<not> os_path_isdir w p")
  case True
  show ?thesis
  proof (cases "os_rename w p (p @ conflict_suffix)")
    case (Inl e)
    with True assms show ?thesis by (simp add: ensure_directory_def)
  next
    case (Inr w1)
    from inv_rename_conflict [OF Inr assms(2)] have i1: "no_file_at_dir_path w1" .
    from True Inr assms(1) have m: "makedirs_logged w1 p = (r, w')"
      by (simp add: ensure_directory_def)
    show ?thesis
    proof (cases "os_makedirs w1 p")
      case (Inl e)
      with m i1 show ?thesis by (simp add: makedirs_logged_def)
    next
      case (Inr w2)
      with m have "w' = w2" by (simp add: makedirs_logged_def)
      with inv_makedirs [OF Inr i1] show ?thesis by simp
    qed
  qed
next
  case False
  then consider "os_path_exists w p" "os_path_isdir w p" | "\<not> os_path_exists w p" by blast
  then show ?thesis
  proof cases
    case 1
    with assms show ?thesis by (simp add: ensure_directory_def)
  next
    case 2
    with assms(1) have m: "makedirs_logged w p = (r, w')" by (simp add: ensure_directory_def)
    show ?thesis
    proof (cases "os_makedirs w p")
      case (Inl e)
      with m assms(2) show ?thesis by (simp add: makedirs_logged_def)
    next
      case (Inr w2)
      with m have "w' = w2" by (simp add: makedirs_logged_def)
      with inv_makedirs [OF Inr assms(2)] show ?thesis by simp
    qed
  qed
qed

lemma inv_download_loop:
  "download_loop c b k lp s d n w = (res, w') \<Longrightarrow> no_file_at_dir_path w \<Longrightarrow>
   no_file_at_dir_path w'"
proof (induction c b k lp s d n w arbitrary: res w' rule: download_loop.induct)
  case (1 c b k lp s d n w)
  note IH = "1.IH" and run = "1.prems"(1) and inv = "1.prems"(2)
  show ?case
  proof (cases rule: download_loop_cases [where d=d and s=s and c=c and w=w and b=b and k=k and lp=lp])
    case finished
    with run inv show ?thesis by (simp add: download_loop_done)
  next
    case client_error
    with run inv show ?thesis by (auto simp: download_loop_client_error inv_record_call)
  next
    case empty_body
    with run inv show ?thesis by (auto simp: download_loop_empty_body inv_record_call)
  next
    case (os_error data e)
    with run inv show ?thesis by (auto simp: download_loop_os_error inv_record_call)
  next
    case (appended data w2)
    from appended run have rec: "download_loop c b k lp s (d + length data) (n + length data) w2 = (res, w')"
      by (simp add: download_loop_next)
    from inv have "no_file_at_dir_path (record_call w (GetObject b k d (end_byte d s)))"
      by (simp add: inv_record_call)
    with appended(4) have "no_file_at_dir_path w2" by (rule inv_open_append)
    with IH [OF appended(1) appended(2) appended(3) appended(4) rec] show ?thesis .
  qed
qed

lemma inv_download_file_resumable:
  assumes "download_file_resumable c w b k lp s = (res, w')" and "no_file_at_dir_path w"
  shows "no_file_at_dir_path w'"
  using assms(1)
proof (cases rule: download_file_resumable_cases)
  case (complete n)
  with assms(2) show ?thesis by simp
next
  case (transfer n)
  from inv_download_loop [OF transfer(3) assms(2)] show ?thesis .
qed

lemma inv_delete_s3_object:
  "no_file_at_dir_path (delete_s3_object w b k del) = no_file_at_dir_path w"
  by (simp add: delete_s3_object_def inv_record_call)

lemma inv_download_one:
  assumes "download_one c b dd del obj db w = (r, w')" and "no_file_at_dir_path w"
  shows "no_file_at_dir_path w'"
proof -
  let ?lp = "local_path_of dd b obj"
  obtain re w1 where ens: "ensure_directory w (os_path_dirname ?lp) = (re, w1)"
    by (cases "ensure_directory w (os_path_dirname ?lp)")
  from inv_ensure_directory [OF ens assms(2)] have i1: "no_file_at_dir_path w1" .
  show ?thesis
  proof (cases re)
    case (Inl e)
    with ens assms(1) i1 show ?thesis by (simp add: download_one_def)
  next
    case (Inr u)
    obtain rt w2 where run: "download_file_resumable c w1 b (Key obj) ?lp (obj_size obj) = (rt, w2)"
      by (cases "download_file_resumable c w1 b (Key obj) ?lp (obj_size obj)")
    from inv_download_file_resumable [OF run i1] have i2: "no_file_at_dir_path w2" .
    show ?thesis
    proof (cases rt)
      case (Inl e)
      with ens run Inr assms(1) i2 show ?thesis by (simp add: download_one_def)
    next
      case rt: (Inr sn)
      obtain success nb where sn: "sn = (success, nb)" by (cases sn)
      from ens Inr have ens': "ensure_directory w (os_path_dirname ?lp) = (Inr (), w1)" by simp
      from run rt sn have run': "download_file_resumable c w1 b (Key obj) ?lp (obj_size obj)
          = (Inr (success, nb), w2)" by simp
      from download_one_step [OF ens' run', of del db] assms(1)
      have "w' = w2 \<or> w' = delete_s3_object w2 b (Key obj) del"
        by (auto split: if_splits)
      with i2 show ?thesis by (auto simp: inv_delete_s3_object)
    qed
  qed
qed

lemma inv_download_files:
  "download_files c b dd del objs db w = (r, w') \<Longrightarrow> no_file_at_dir_path w \<Longrightarrow>
   no_file_at_dir_path w'"
proof (induction objs arbitrary: db w)
  case Nil
  then show ?case by simp
next
  case (Cons obj objs)
  obtain r1 w1 where one: "download_one c b dd del obj db w = (r1, w1)"
    by (cases "download_one c b dd del obj db w")
  from inv_download_one [OF one Cons.prems(2)] have i1: "no_file_at_dir_path w1" .
  show ?case
  proof (cases r1)
    case (Inl e)
    with one Cons.prems(1) i1 show ?thesis by simp
  next
    case (Inr db')
    with one Cons.prems(1) have "download_files c b dd del objs db' w1 = (r, w')" by simp
    from Cons.IH [OF this i1] show ?thesis .
  qed
qed

lemma inv_make_marker_dir:
  assumes "no_file_at_dir_path w"
  shows "no_file_at_dir_path (make_marker_dir b dd del obj w)"
proof (cases "os_makedirs w (local_path_of dd b obj)")
  case (Inl e)
  with assms show ?thesis
    by (simp add: make_marker_dir_def Let_def inv_delete_s3_object)
next
  case (Inr w1)
  from inv_makedirs [OF Inr assms] Inr assms show ?thesis
    by (simp add: make_marker_dir_def Let_def inv_delete_s3_object)
qed

lemma inv_make_marker_dirs:
  "no_file_at_dir_path w \<Longrightarrow> no_file_at_dir_path (make_marker_dirs b dd del objs w)"
  by (induction objs arbitrary: w) (simp_all add: inv_make_marker_dir)

lemma inv_download_bucket_objects:
  assumes "download_bucket_objects c w b dd cfg = (r, w')" and "no_file_at_dir_path w"
  shows "no_file_at_dir_path w'"
proof -
  obtain fs ds w0 where l: "list_bucket_objects c w b = ((fs, ds), w0)"
    by (cases "list_bucket_objects c w b") auto
  from list_bucket_objects_partition [OF l] assms(2) have i0: "no_file_at_dir_path w0"
    by (simp add: no_file_at_dir_path_def)
  let ?del = "get_delete_after_download cfg"
  obtain r1 w1 where f: "download_files c b dd ?del fs 0 w0 = (r1, w1)"
    by (cases "download_files c b dd ?del fs 0 w0")
  from inv_download_files [OF f i0] have i1: "no_file_at_dir_path w1" .
  show ?thesis
  proof (cases r1)
    case (Inl e)
    with assms(1) l f i1 show ?thesis by (simp add: download_bucket_objects_def)
  next
    case (Inr db)
    with assms(1) l f have "w' = make_marker_dirs b dd ?del ds w1"
      by (simp add: download_bucket_objects_def)
    with i1 show ?thesis by (simp add: inv_make_marker_dirs)
  qed
qed

lemma inv_process_buckets:
  "process_buckets c dd pats cfg buckets w = (r, w') \<Longrightarrow> no_file_at_dir_path w \<Longrightarrow>
   no_file_at_dir_path w'"
proof (induction buckets arbitrary: w)
  case Nil
  then show ?case by simp
next
  case (Cons b buckets)
  show ?case
  proof (cases "should_ignore_bucket b pats")
    case True
    with Cons.prems(1) have "process_buckets c dd pats cfg buckets w = (r, w')" by simp
    from Cons.IH [OF this Cons.prems(2)] show ?thesis .
  next
    case False
    obtain r1 w1 where d: "download_bucket_objects c w b dd cfg = (r1, w1)"
      by (cases "download_bucket_objects c w b dd cfg")
    from inv_download_bucket_objects [OF d Cons.prems(2)] have i1: "no_file_at_dir_path w1" .
    show ?thesis
    proof (cases r1)
      case (Inl e)
      with False d Cons.prems(1) i1 show ?thesis by simp
    next
      case (Inr u)
      with False d Cons.prems(1) have "process_buckets c dd pats cfg buckets w1 = (r, w')" by simp
      from Cons.IH [OF this i1] show ?thesis .
    qed
  qed
qed

lemma inv_list_and_download_all_buckets:
  assumes "list_and_download_all_buckets c w dd pats cfg = (r, w')" and "no_file_at_dir_path w"
  shows "no_file_at_dir_path w'"
proof -
  from assms(2) have i: "no_file_at_dir_path (record_call w ListBuckets)"
    by (simp add: inv_record_call)
  show ?thesis
  proof (cases "list_buckets c (calls w)")
    case (Inl e)
    with assms(1) i show ?thesis
      by (cases e) (simp add: list_and_download_all_buckets_def)
  next
    case (Inr buckets)
    show ?thesis
    proof (cases "buckets = []")
      case True
      with Inr assms(1) i show ?thesis by (simp add: list_and_download_all_buckets_def)
    next
      case False
      with Inr assms(1) have "process_buckets c dd pats cfg buckets (record_call w ListBuckets) = (r, w')"
        by (simp add: list_and_download_all_buckets_def)
      from inv_process_buckets [OF this i] show ?thesis .
    qed
  qed
qed

end
